theory Spec2Isabelle
  imports
    Main
    "HOL-Library.Word"
    "HOL-Library.Multiset"
    "HOL-Library.Char_ord"
    "HOL-Library.List_Lexorder"
begin

section \<open>The account cache of the Vault account plugin\<close>

text \<open>
  This theory embeds \<^verbatim>\<open>internal/cache/account_cache.go\<close> and
  \<^verbatim>\<open>internal/config/vaultclient.go\<close>. Every operation of the cache takes the
  mutex \<^verbatim>\<open>Mu\<close> for its whole body (or documents that its caller holds it), so an
  operation is modelled as one atomic function from the cache state to the new cache
  state. Calls to \<^verbatim>\<open>log.Printf\<close> change nothing in the cache and are left out.
\<close>

subsection \<open>Accounts and their URLs\<close>

text \<open>
  \<^verbatim>\<open>common.Address\<close> is a \<^verbatim>\<open>[20]byte\<close>: 160 bits, compared with \<^verbatim>\<open>==\<close> only.
  Its zero value \<^verbatim>\<open>common.Address{}\<close> is the word \<open>0\<close>.
\<close>

type_synonym Address = "160 word"

text \<open>
  \<^verbatim>\<open>accounts.URL\<close> and \<^verbatim>\<open>accounts.Account\<close> are declared by the go-ethereum
  dependency named in \<^verbatim>\<open>go.mod\<close>: a URL is a struct of two strings, an account a
  struct of an address and a URL. Go compares strings byte by byte, which is the
  lexicographic order of \<open>char list\<close>.
\<close>

record URL =
  Scheme :: string
  Path :: string

record Account =
  Address :: Address
  URL :: URL

definition zero_URL :: URL where
  "zero_URL = \<lparr>Scheme = [], Path = []\<rparr>"

definition zero_Account :: Account where
  "zero_Account = \<lparr>Address = 0, URL = zero_URL\<rparr>"

definition strings_Compare :: "string \<Rightarrow> string \<Rightarrow> int" where
  "strings_Compare a b = (if a = b then 0 else if a < b then - 1 else 1)"

text \<open>
  \<^verbatim>\<open>func (u URL) Cmp(url URL) int\<close> of the dependency: schemes first, paths when the
  schemes are equal.
\<close>

definition Cmp :: "URL \<Rightarrow> URL \<Rightarrow> int" where
  "Cmp u url = (if Scheme u = Scheme url then strings_Compare (Path u) (Path url)
                else strings_Compare (Scheme u) (Scheme url))"

text \<open>\<^verbatim>\<open>accountsByURL.Less\<close>, on the accounts themselves.\<close>

definition Less :: "Account \<Rightarrow> Account \<Rightarrow> bool" where
  "Less x y = (Cmp (URL x) (URL y) < 0)"

text \<open>The list is in URL order when no later account is \<^const>\<open>Less\<close> than an earlier one.\<close>

definition url_le :: "Account \<Rightarrow> Account \<Rightarrow> bool" where
  "url_le x y = (Cmp (URL x) (URL y) \<le> 0)"

definition sorted_by_URL :: "Account list \<Rightarrow> bool" where
  "sorted_by_URL xs = sorted_wrt url_le xs"

subsection \<open>Binary search\<close>

text \<open>
  \<^verbatim>\<open>sort.Search(n, f)\<close> of the Go library:
  \<^verbatim>\<open>
  i, j := 0, n
  for i < j {
      h := int(uint(i+j) >> 1)
      if !f(h) { i = h + 1 } else { j = h }
  }
  return i
  \<close>
  The predicate is only ever asked about indices below \<open>n\<close>.
\<close>

function Search_loop :: "(nat \<Rightarrow> bool) \<Rightarrow> nat \<Rightarrow> nat \<Rightarrow> nat" where
  "Search_loop f i j =
     (if i < j then
        (let h = (i + j) div 2 in
         if \<not> f h then Search_loop f (h + 1) j else Search_loop f i h)
      else i)"
  by pat_completeness auto
termination
  by (relation "measure (\<lambda>(f, i, j). j - i)") auto

declare Search_loop.simps [simp del]

definition sort_Search :: "nat \<Rightarrow> (nat \<Rightarrow> bool) \<Rightarrow> nat" where
  "sort_Search n f = Search_loop f 0 n"

subsection \<open>The cache state\<close>

text \<open>
  Modelled from the spec: the type \<^verbatim>\<open>watcher\<close> with its functions
  \<^verbatim>\<open>newWatcher\<close>, \<^verbatim>\<open>start\<close> and \<^verbatim>\<open>close\<close> is not among the source files. The
  source reads its field \<^verbatim>\<open>running\<close>; the spec gives it two states, Idle and Watching,
  has a new cache start Idle, and has \<^verbatim>\<open>close\<close> take it to Idle.
\<close>

record watcher =
  running :: bool

definition newWatcher :: watcher where
  "newWatcher = \<lparr>running = False\<rparr>"

definition watcher_close :: "watcher \<Rightarrow> watcher" where
  "watcher_close w = w\<lparr>running := False\<rparr>"

text \<open>
  A Go channel is open or closed; \<^verbatim>\<open>close\<close> of a closed channel panics. The field
  \<^verbatim>\<open>notify\<close> is a reference that may be \<^verbatim>\<open>nil\<close> (\<open>None\<close>). Of the timer behind
  \<^verbatim>\<open>throttle\<close> only whether it is armed is kept; \<^verbatim>\<open>Stop\<close> disarms it and may be
  called on a stopped timer. The mutex \<^verbatim>\<open>Mu\<close> is free between operations and has no
  field here, and neither has \<^verbatim>\<open>fileC\<close>, the state of the directory scan.
\<close>

datatype chan = Chan (closed: bool)

datatype Timer = Timer (armed: bool)

record AccountCache =
  keydir :: string
  watcher :: watcher
  all_accts :: "Account list"
  byAddr :: "Address \<rightharpoonup> Account list"
  byFile :: "string \<rightharpoonup> Account"
  throttle :: "Timer option"
  notify :: "chan option"
  vaultAddr :: string

definition NewAccountCache :: "string \<Rightarrow> string \<Rightarrow> AccountCache" where
  "NewAccountCache kd va =
     \<lparr>keydir = kd, watcher = newWatcher, all_accts = [], byAddr = Map.empty,
      byFile = Map.empty, throttle = None, notify = Some (Chan False), vaultAddr = va\<rparr>"

text \<open>
  Reading \<^verbatim>\<open>ac.byAddr[addr]\<close> at a missing key gives the nil slice, which has length
  zero and to which \<^verbatim>\<open>append\<close> adds as to an empty one.
\<close>

definition byAddr_at :: "AccountCache \<Rightarrow> Address \<Rightarrow> Account list" where
  "byAddr_at ac addr = (case byAddr ac addr of None \<Rightarrow> [] | Some l \<Rightarrow> l)"

subsection \<open>Add and deleteByFile\<close>

definition Add :: "Account \<Rightarrow> string \<Rightarrow> AccountCache \<Rightarrow> AccountCache" where
  "Add newAccount filepath ac =
     (let i = sort_Search (length (all_accts ac))
                (\<lambda>i. Cmp (URL (all_accts ac ! i)) (URL newAccount) \<ge> 0)
      in if i < length (all_accts ac) \<and> all_accts ac ! i = newAccount then ac
         else ac\<lparr>all_accts := take i (all_accts ac) @ newAccount # drop i (all_accts ac),
                 byAddr := (byAddr ac)(Address newAccount \<mapsto>
                              byAddr_at ac (Address newAccount) @ [newAccount]),
                 byFile := (byFile ac)(filepath \<mapsto> newAccount)\<rparr>)"

text \<open>
  \<^verbatim>\<open>removeAccount\<close> drops the first element equal to \<open>elem\<close>. The slice it shifts
  is referenced from \<^verbatim>\<open>byAddr\<close> only, so the list value is all there is to it.
\<close>

primrec removeAccount :: "Account list \<Rightarrow> Account \<Rightarrow> Account list" where
  "removeAccount [] elem = []"
| "removeAccount (x # xs) elem = (if x = elem then xs else x # removeAccount xs elem)"

text \<open>
  When the path has no entry, \<^verbatim>\<open>acct, ok := ac.byFile[path]\<close> leaves the zero account
  in \<open>acct\<close>; the source logs and goes on to the search with it.
\<close>

definition deleteByFile :: "string \<Rightarrow> AccountCache \<Rightarrow> AccountCache" where
  "deleteByFile path ac =
     (let acct = (case byFile ac path of None \<Rightarrow> zero_Account | Some a \<Rightarrow> a);
          i = sort_Search (length (all_accts ac))
                (\<lambda>i. Path (URL (all_accts ac ! i)) \<ge> Path (URL acct))
      in if i < length (all_accts ac) \<and> Path (URL (all_accts ac ! i)) = Path (URL acct) then
           (let removed = all_accts ac ! i;
                ba = removeAccount (byAddr_at ac (Address removed)) removed
            in ac\<lparr>all_accts := take i (all_accts ac) @ drop (i + 1) (all_accts ac),
                  byAddr := (if length ba = 0 then (byAddr ac)(Address removed := None)
                             else (byAddr ac)(Address removed \<mapsto> ba)),
                  byFile := (byFile ac)(path := None)\<rparr>)
         else ac)"

subsection \<open>Sequences of operations\<close>

datatype cache_op = OpAdd Account string | OpDeleteByFile string

fun apply_op :: "AccountCache \<Rightarrow> cache_op \<Rightarrow> AccountCache" where
  "apply_op ac (OpAdd a f) = Add a f ac"
| "apply_op ac (OpDeleteByFile p) = deleteByFile p ac"

definition run_ops :: "string \<Rightarrow> string \<Rightarrow> cache_op list \<Rightarrow> AccountCache" where
  "run_ops kd va ops = foldl apply_op (NewAccountCache kd va) ops"

text \<open>
  The two bodies with the search index taken out, for the invariant proofs: what
  \<^const>\<open>Add\<close> does when it inserts at index \<open>i\<close>, and what \<^const>\<open>deleteByFile\<close>
  does when it removes index \<open>i\<close>.
\<close>

definition insert_at :: "nat \<Rightarrow> Account \<Rightarrow> string \<Rightarrow> AccountCache \<Rightarrow> AccountCache" where
  "insert_at i newAccount filepath ac =
     ac\<lparr>all_accts := take i (all_accts ac) @ newAccount # drop i (all_accts ac),
        byAddr := (byAddr ac)(Address newAccount \<mapsto>
                     byAddr_at ac (Address newAccount) @ [newAccount]),
        byFile := (byFile ac)(filepath \<mapsto> newAccount)\<rparr>"


text \<open>
  Invariant I2: under every address \<^verbatim>\<open>byAddr\<close> holds the accounts of the sorted list
  with that address, each as often as the list has it, and no key holds an empty list.
\<close>

definition byAddr_consistent :: "AccountCache \<Rightarrow> bool" where
  "byAddr_consistent ac \<longleftrightarrow>
     (\<forall>addr. mset (byAddr_at ac addr) = mset (filter (\<lambda>a. Address a = addr) (all_accts ac))) \<and>
     (\<forall>addr. byAddr ac addr \<noteq> Some [])"

subsection \<open>Find\<close>

text \<open>
  \<^verbatim>\<open>AmbiguousAddrError\<close> is a struct of the address asked for and the matches;
  \<^verbatim>\<open>ErrNoMatch\<close> is the other error \<^verbatim>\<open>Find\<close> returns.
\<close>

datatype find_error = ErrNoMatch | AmbiguousAddrError Address "Account list"

text \<open>
  \<^verbatim>\<open>filepath.Separator\<close> on the platforms the plugin is built for, and
  \<^verbatim>\<open>strings.ContainsRune\<close> for a rune of one byte.
\<close>

definition Separator :: char where
  "Separator = CHR ''/''"

definition strings_ContainsRune :: "string \<Rightarrow> char \<Rightarrow> bool" where
  "strings_ContainsRune s r = (r \<in> set s)"

text \<open>The loop \<^verbatim>\<open>for i := range matches\<close>: the first match with the URL, if any.\<close>

primrec first_with_URL :: "Account list \<Rightarrow> URL \<Rightarrow> Account option" where
  "first_with_URL [] u = None"
| "first_with_URL (m # ms) u = (if URL m = u then Some m else first_with_URL ms u)"

text \<open>
  The \<^verbatim>\<open>switch len(matches)\<close>. \<^verbatim>\<open>sort.Sort\<close> of the Go library is the parameter
  \<open>srt\<close>: the library promises an ordered rearrangement, and not which one when
  several elements compare equal.
\<close>

definition Find_switch ::
  "(Account list \<Rightarrow> Account list) \<Rightarrow> Account \<Rightarrow> Account list \<Rightarrow> find_error + Account" where
  "Find_switch srt a matches =
     (if length matches = 1 then Inr (matches ! 0)
      else if length matches = 0 then Inl ErrNoMatch
      else Inl (AmbiguousAddrError (Address a) (srt matches)))"

text \<open>
  \<^verbatim>\<open>Find\<close>; \<^verbatim>\<open>filepath.Join\<close> of the Go library, at two arguments, is the
  parameter \<open>join\<close>.
\<close>

definition Find ::
  "(string \<Rightarrow> string \<Rightarrow> string) \<Rightarrow> (Account list \<Rightarrow> Account list) \<Rightarrow>
   AccountCache \<Rightarrow> Account \<Rightarrow> find_error + Account" where
  "Find join srt ac a =
     (let matches = (if Address a \<noteq> 0 then byAddr_at ac (Address a) else all_accts ac)
      in if Path (URL a) \<noteq> [] then
           (let a' = (if \<not> strings_ContainsRune (Path (URL a)) Separator
                      then a\<lparr>URL := (URL a)\<lparr>Path := join (keydir ac) (Path (URL a))\<rparr>\<rparr>
                      else a)
            in case first_with_URL matches (URL a') of
                 Some m \<Rightarrow> Inr m
               | None \<Rightarrow> if Address a' = 0 then Inl ErrNoMatch
                          else Find_switch srt a' matches)
         else Find_switch srt a matches)"

text \<open>What \<^verbatim>\<open>sort.Sort(accountsByURL(s))\<close> promises of its result.\<close>

definition sorts_by_URL :: "(Account list \<Rightarrow> Account list) \<Rightarrow> bool" where
  "sorts_by_URL srt \<longleftrightarrow> (\<forall>xs. sorted_by_URL (srt xs) \<and> mset (srt xs) = mset xs)"

text \<open>One sort that keeps the promise: insertion sort with \<^const>\<open>Less\<close>.\<close>

primrec insert_by_URL :: "Account \<Rightarrow> Account list \<Rightarrow> Account list" where
  "insert_by_URL a [] = [a]"
| "insert_by_URL a (x # xs) = (if Less x a then x # insert_by_URL a xs else a # x # xs)"

primrec insertion_sort :: "Account list \<Rightarrow> Account list" where
  "insertion_sort [] = []"
| "insertion_sort (x # xs) = insert_by_URL x (insertion_sort xs)"

subsection \<open>Close\<close>

datatype panic = close_of_closed_channel | index_out_of_range

definition close_chan :: "chan \<Rightarrow> panic + chan" where
  "close_chan c = (if closed c then Inl close_of_closed_channel else Inr (Chan True))"

definition Timer_Stop :: "Timer \<Rightarrow> Timer" where
  "Timer_Stop t = Timer False"

definition Close :: "AccountCache \<Rightarrow> panic + AccountCache" where
  "Close ac =
     (let ac1 = ac\<lparr>watcher := watcher_close (watcher ac)\<rparr>;
          ac2 = (case throttle ac1 of
                   None \<Rightarrow> ac1
                 | Some t \<Rightarrow> ac1\<lparr>throttle := Some (Timer_Stop t)\<rparr>)
      in case notify ac2 of
           None \<Rightarrow> Inr ac2
         | Some ch \<Rightarrow>
             (case close_chan ch of
                Inl p \<Rightarrow> Inl p
              | Inr ch' \<Rightarrow> Inr (ac2\<lparr>notify := None\<rparr>)))"

subsection \<open>Accounts, on slices in memory\<close>

text \<open>
  \<^verbatim>\<open>Accounts\<close> hands a slice to its caller, who may write to it, so here the slices are
  what Go has: a header (backing array, offset, length, capacity) over arrays that live
  in memory. \<open>next_free\<close> is the address the next allocation gets.
\<close>

record heap =
  arrays :: "nat \<Rightarrow> Account list"
  next_free :: nat

record slice =
  arr :: nat
  off :: nat
  len :: nat
  cap :: nat

definition elems :: "heap \<Rightarrow> slice \<Rightarrow> Account list" where
  "elems h s = take (len s) (drop (off s) (arrays h (arr s)))"

text \<open>\<^verbatim>\<open>make([]accounts.Account, n)\<close>: a new array of \<open>n\<close> zero accounts.\<close>

definition make_slice :: "nat \<Rightarrow> heap \<Rightarrow> slice \<times> heap" where
  "make_slice n h =
     (\<lparr>arr = next_free h, off = 0, len = n, cap = n\<rparr>,
      h\<lparr>arrays := (arrays h)(next_free h := replicate n zero_Account),
        next_free := next_free h + 1\<rparr>)"

text \<open>
  \<^verbatim>\<open>copy(dst, src)\<close> moves \<^verbatim>\<open>min(len(dst), len(src))\<close> elements, reading them all
  before it writes.
\<close>

definition copy_slice :: "slice \<Rightarrow> slice \<Rightarrow> heap \<Rightarrow> heap" where
  "copy_slice dst src h =
     (let n = min (len dst) (len src);
          vals = take n (elems h src);
          a = arrays h (arr dst)
      in h\<lparr>arrays := (arrays h)(arr dst := take (off dst) a @ vals @ drop (off dst + n) a)\<rparr>)"

text \<open>The assignment \<^verbatim>\<open>s[i] = v\<close>, which panics outside the length of the slice.\<close>

definition store_at :: "slice \<Rightarrow> nat \<Rightarrow> Account \<Rightarrow> heap \<Rightarrow> panic + heap" where
  "store_at s i v h =
     (if i < len s
      then Inr (h\<lparr>arrays := (arrays h)(arr s := (arrays h (arr s))[off s + i := v])\<rparr>)
      else Inl index_out_of_range)"

text \<open>A slice is in the memory when it is empty or lies within an allocated array.\<close>

definition slice_ok :: "heap \<Rightarrow> slice \<Rightarrow> bool" where
  "slice_ok h s \<longleftrightarrow>
     len s = 0 \<or> (arr s < next_free h \<and> off s + len s \<le> length (arrays h (arr s)))"

text \<open>
  The cache as \<^verbatim>\<open>Accounts\<close> sees it: the memory and the header in the field
  \<^verbatim>\<open>all\<close>. \<^verbatim>\<open>MaybeReload\<close> scans the directory and starts the watcher; what it does to
  the cache is the parameter \<open>reload\<close>, and the copy is made of what it leaves.
\<close>

record cache_mem =
  mem :: heap
  all_slice :: slice

definition Accounts :: "(cache_mem \<Rightarrow> cache_mem) \<Rightarrow> cache_mem \<Rightarrow> slice \<times> cache_mem" where
  "Accounts reload cm =
     (let cm1 = reload cm;
          (cpy, h1) = make_slice (len (all_slice cm1)) (mem cm1);
          h2 = copy_slice cpy (all_slice cm1) h1
      in (cpy, cm1\<lparr>mem := h2\<rparr>))"

section \<open>The Vault client configuration\<close>

text \<open>
  \<^verbatim>\<open>*url.URL\<close> is a reference to a parsed URL (\<open>None\<close> for \<^verbatim>\<open>nil\<close>); the parsed
  URL is the type \<open>'u\<close>, and the values of Go's \<^verbatim>\<open>error\<close> are the type \<open>'e\<close>.
  \<^verbatim>\<open>environmentVariable\<close> is \<^verbatim>\<open>url.URL\<close> under another name. The fields of the three
  structs read from JSON carry the prefix \<open>j_\<close>.
\<close>

record 'u VaultClientAuthentication =
  Token :: "'u option"
  RoleId :: "'u option"
  SecretId :: "'u option"
  ApprolePath :: string

record 'u vaultClientTLS =
  CaCert :: "'u option"
  ClientCert :: "'u option"
  ClientKey :: "'u option"

record 'u VaultClient =
  Vault :: "'u option"
  AccountDirectory :: "'u option"
  Unlock :: "string list"
  Authentication :: "'u VaultClientAuthentication"
  TLS :: "'u vaultClientTLS"

record vaultClientAuthenticationJSON =
  j_Token :: string
  j_RoleId :: string
  j_SecretId :: string
  j_ApprolePath :: string

record vaultClientTLSJSON =
  j_CaCert :: string
  j_ClientCert :: string
  j_ClientKey :: string

record vaultClientJSON =
  j_Vault :: string
  j_AccountDirectory :: string
  j_Unlock :: "string list"
  j_Authentication :: vaultClientAuthenticationJSON
  j_Tls :: vaultClientTLSJSON

text \<open>The value \<^verbatim>\<open>new(vaultClientJSON)\<close> points to.\<close>

definition new_vaultClientJSON :: vaultClientJSON where
  "new_vaultClientJSON =
     \<lparr>j_Vault = [], j_AccountDirectory = [], j_Unlock = [],
      j_Authentication = \<lparr>j_Token = [], j_RoleId = [], j_SecretId = [], j_ApprolePath = []\<rparr>,
      j_Tls = \<lparr>j_CaCert = [], j_ClientCert = [], j_ClientKey = []\<rparr>\<rparr>"

text \<open>In the three conversions \<open>parse\<close> is \<^verbatim>\<open>url.Parse\<close> of the Go library.\<close>

definition vaultClientAuthentication ::
  "(string \<Rightarrow> 'e + 'u) \<Rightarrow> vaultClientAuthenticationJSON \<Rightarrow> 'e + 'u VaultClientAuthentication" where
  "vaultClientAuthentication parse c =
     (case parse (j_Token c) of Inl err \<Rightarrow> Inl err | Inr token \<Rightarrow>
      case parse (j_RoleId c) of Inl err \<Rightarrow> Inl err | Inr roleId \<Rightarrow>
      case parse (j_SecretId c) of Inl err \<Rightarrow> Inl err | Inr secretId \<Rightarrow>
        Inr \<lparr>Token = Some token, RoleId = Some roleId, SecretId = Some secretId,
             ApprolePath = j_ApprolePath c\<rparr>)"

definition vaultClientTls ::
  "(string \<Rightarrow> 'e + 'u) \<Rightarrow> vaultClientTLSJSON \<Rightarrow> 'e + 'u vaultClientTLS" where
  "vaultClientTls parse c =
     (case parse (j_CaCert c) of Inl err \<Rightarrow> Inl err | Inr caCert \<Rightarrow>
      case parse (j_ClientCert c) of Inl err \<Rightarrow> Inl err | Inr clientCert \<Rightarrow>
      case parse (j_ClientKey c) of Inl err \<Rightarrow> Inl err | Inr clientKey \<Rightarrow>
        Inr \<lparr>CaCert = Some caCert, ClientCert = Some clientCert, ClientKey = Some clientKey\<rparr>)"

definition vaultClient :: "(string \<Rightarrow> 'e + 'u) \<Rightarrow> vaultClientJSON \<Rightarrow> 'e + 'u VaultClient" where
  "vaultClient parse c =
     (case parse (j_Vault c) of Inl err \<Rightarrow> Inl err | Inr vault \<Rightarrow>
      case parse (j_AccountDirectory c) of Inl err \<Rightarrow> Inl err | Inr accountDirectory \<Rightarrow>
      case vaultClientAuthentication parse (j_Authentication c) of
        Inl err \<Rightarrow> Inl err | Inr authentication \<Rightarrow>
      case vaultClientTls parse (j_Tls c) of Inl err \<Rightarrow> Inl err | Inr tls \<Rightarrow>
        Inr \<lparr>Vault = Some vault, AccountDirectory = Some accountDirectory,
             Unlock = j_Unlock c, Authentication = authentication, TLS = tls\<rparr>)"

text \<open>
  \<^verbatim>\<open>UnmarshalJSON\<close> has a pointer receiver: the model takes the value behind it and
  returns the error (\<open>None\<close> for \<^verbatim>\<open>nil\<close>) with the value behind it afterwards.
  \<^verbatim>\<open>json.Unmarshal\<close> of the Go library is the parameter \<open>unmarshal\<close>: from the bytes
  and the struct it is given to its error and what it leaves in the struct.
\<close>

definition UnmarshalJSON ::
  "(8 word list \<Rightarrow> vaultClientJSON \<Rightarrow> 'e option \<times> vaultClientJSON) \<Rightarrow> (string \<Rightarrow> 'e + 'u) \<Rightarrow>
   'u VaultClient \<Rightarrow> 8 word list \<Rightarrow> 'e option \<times> 'u VaultClient" where
  "UnmarshalJSON unmarshal parse c b =
     (let (err, j) = unmarshal b new_vaultClientJSON
      in case err of
           Some e \<Rightarrow> (Some e, c)
         | None \<Rightarrow>
             (case vaultClient parse j of
                Inl e \<Rightarrow> (Some e, c)
              | Inr vc \<Rightarrow> (None, vc)))"

section \<open>Example values\<close>

text \<open>Two accounts that name the same Vault secret, and an account without a URL.\<close>

definition url_k1 :: URL where
  "url_k1 = \<lparr>Scheme = ''hashivlt'', Path = ''k1''\<rparr>"

definition acct_1 :: Account where
  "acct_1 = \<lparr>Address = 1, URL = url_k1\<rparr>"

definition acct_2 :: Account where
  "acct_2 = \<lparr>Address = 2, URL = url_k1\<rparr>"

definition acct_no_URL :: Account where
  "acct_no_URL = \<lparr>Address = 1, URL = zero_URL\<rparr>"

text \<open>
  For the statements about \<^const>\<open>Find\<close>: the candidates of a query, read off the
  fields of the cache, and the URL the query is matched with.
\<close>

abbreviation candidates :: "AccountCache \<Rightarrow> Account \<Rightarrow> Account list" where
  "candidates ac a \<equiv>
     (if Address a \<noteq> 0 then (case byAddr ac (Address a) of None \<Rightarrow> [] | Some l \<Rightarrow> l)
      else all_accts ac)"

abbreviation completed_URL :: "(string \<Rightarrow> string \<Rightarrow> string) \<Rightarrow> AccountCache \<Rightarrow> Account \<Rightarrow> URL" where
  "completed_URL join ac a \<equiv>
     (if CHR ''/'' \<in> set (Path (URL a)) then URL a
      else (URL a)\<lparr>Path := join (keydir ac) (Path (URL a))\<rparr>)"

definition join_with_slash :: "string \<Rightarrow> string \<Rightarrow> string" where
  "join_with_slash dir name = dir @ ''/'' @ name"

definition acct_3 :: Account where
  "acct_3 = \<lparr>Address = 1, URL = \<lparr>Scheme = ''hashivlt'', Path = ''k3''\<rparr>\<rparr>"

definition acct_4 :: Account where
  "acct_4 = \<lparr>Address = 4, URL = \<lparr>Scheme = ''hashivlt'', Path = ''keys/k4''\<rparr>\<rparr>"

definition query_k4 :: Account where
  "query_k4 = \<lparr>Address = 0, URL = \<lparr>Scheme = ''hashivlt'', Path = ''k4''\<rparr>\<rparr>"

definition query_k5 :: Account where
  "query_k5 = \<lparr>Address = 0, URL = \<lparr>Scheme = ''hashivlt'', Path = ''k5''\<rparr>\<rparr>"

text \<open>
  A memory with one array of two accounts, which the field \<^verbatim>\<open>all\<close> covers; and a
  reload that finds nothing to do.
\<close>

definition cm_ex :: cache_mem where
  "cm_ex = \<lparr>mem = \<lparr>arrays = (\<lambda>_. [])(0 := [acct_1, acct_4]), next_free = 1\<rparr>,
            all_slice = \<lparr>arr = 0, off = 0, len = 2, cap = 2\<rparr>\<rparr>"

definition no_reload :: "cache_mem \<Rightarrow> cache_mem" where
  "no_reload cm = cm"

text \<open>
  The strings of a \<^verbatim>\<open>vaultClientJSON\<close> that \<^verbatim>\<open>vaultClient\<close> and the two conversions
  under it give to \<^verbatim>\<open>url.Parse\<close>.
\<close>

definition parsed_strings :: "vaultClientJSON \<Rightarrow> string list" where
  "parsed_strings j =
     [j_Vault j, j_AccountDirectory j,
      j_Token (j_Authentication j), j_RoleId (j_Authentication j),
      j_SecretId (j_Authentication j),
      j_CaCert (j_Tls j), j_ClientCert (j_Tls j), j_ClientKey (j_Tls j)]"

text \<open>
  Stand-ins for the two library functions, for the examples: a parser that refuses
  strings with a space, and a decoder that refuses the empty input and reads any other
  as one fixed configuration.
\<close>

definition parse_ex :: "string \<Rightarrow> string + string" where
  "parse_ex s = (if CHR '' '' \<in> set s then Inl ''invalid character in URL'' else Inr s)"

definition json_ex :: vaultClientJSON where
  "json_ex =
     \<lparr>j_Vault = ''http://vault:8200'', j_AccountDirectory = ''file:///keys'', j_Unlock = [],
      j_Authentication = \<lparr>j_Token = ''env://TOKEN'', j_RoleId = ''env://ROLE'',
                          j_SecretId = ''env://SECRET'', j_ApprolePath = ''approle''\<rparr>,
      j_Tls = \<lparr>j_CaCert = ''file:///ca.pem'', j_ClientCert = ''file:///cert.pem'',
               j_ClientKey = ''file:///bad key.pem''\<rparr>\<rparr>"

definition unmarshal_ex :: "8 word list \<Rightarrow> vaultClientJSON \<Rightarrow> string option \<times> vaultClientJSON" where
  "unmarshal_ex b j = (if b = [] then (Some ''unexpected end of JSON input'', j)
                       else (None, json_ex))"

definition client_ex :: "string VaultClient" where
  "client_ex =
     \<lparr>Vault = Some ''http://old:8200'', AccountDirectory = None, Unlock = [''a''],
      Authentication = \<lparr>Token = None, RoleId = None, SecretId = None, ApprolePath = []\<rparr>,
      TLS = \<lparr>CaCert = None, ClientCert = None, ClientKey = None\<rparr>\<rparr>"

section \<open>Properties of the cache\<close>

subsection \<open>The URL order\<close>

lemma Cmp_le0_iff:
  "Cmp u v \<le> 0 \<longleftrightarrow> Scheme u < Scheme v \<or> (Scheme u = Scheme v \<and> Path u \<le> Path v)"
  by (auto simp: Cmp_def strings_Compare_def)

lemma Cmp_ge0_iff:
  "Cmp u v \<ge> 0 \<longleftrightarrow> Scheme v < Scheme u \<or> (Scheme u = Scheme v \<and> Path v \<le> Path u)"
  by (auto simp: Cmp_def strings_Compare_def)

lemma url_le_refl: "url_le x x"
  by (simp add: url_le_def Cmp_le0_iff)

lemma url_le_trans: "url_le x y \<Longrightarrow> url_le y z \<Longrightarrow> url_le x z"
  by (auto simp: url_le_def Cmp_le0_iff)

lemma Cmp_ge0_url_le: "Cmp (URL x) (URL y) \<ge> 0 \<Longrightarrow> url_le y x"
  by (auto simp: url_le_def Cmp_le0_iff Cmp_ge0_iff)

lemma not_Cmp_ge0_url_le: "\<not> Cmp (URL x) (URL y) \<ge> 0 \<Longrightarrow> url_le x y"
  by (auto simp: url_le_def Cmp_le0_iff Cmp_ge0_iff)

subsection \<open>Binary search finds the first index\<close>

lemma Search_loop_bounds: "i \<le> j \<Longrightarrow> i \<le> Search_loop f i j \<and> Search_loop f i j \<le> j"
proof (induction f i j rule: Search_loop.induct)
  case (1 f i j)
  show ?case
  proof (cases "i < j")
    case False
    with "1.prems" show ?thesis by (simp add: Search_loop.simps)
  next
    case True
    let ?h = "(i + j) div 2"
    from True have h: "i \<le> ?h" "?h < j" by linarith+
    show ?thesis
    proof (cases "f ?h")
      case True
      have "Search_loop f i j = Search_loop f i ?h"
        using True \<open>i < j\<close> by (subst Search_loop.simps) (simp add: Let_def)
      with "1.IH"(2)[OF \<open>i < j\<close> refl] True h show ?thesis by simp
    next
      case False
      have "Search_loop f i j = Search_loop f (?h + 1) j"
        using False \<open>i < j\<close> by (subst Search_loop.simps) (simp add: Let_def)
      with "1.IH"(1)[OF \<open>i < j\<close> refl] False h show ?thesis by simp
    qed
  qed
qed

lemma Search_loop_least:
  assumes "i \<le> j" "j \<le> n"
    and "\<forall>k<i. \<not> f k"
    and "\<forall>k. j \<le> k \<and> k < n \<longrightarrow> f k"
    and "\<forall>k l. k \<le> l \<and> l < n \<and> f k \<longrightarrow> f l"
  shows "(\<forall>k<Search_loop f i j. \<not> f k) \<and> (\<forall>k. Search_loop f i j \<le> k \<and> k < n \<longrightarrow> f k)"
  using assms
proof (induction f i j rule: Search_loop.induct)
  case (1 f i j)
  show ?case
  proof (cases "i < j")
    case False
    with "1.prems" have "i = j" by simp
    with "1.prems" show ?thesis by (simp add: Search_loop.simps)
  next
    case True
    let ?h = "(i + j) div 2"
    from True have h: "i \<le> ?h" "?h < j" by linarith+
    show ?thesis
    proof (cases "f ?h")
      case True
      have a: "\<forall>k. ?h \<le> k \<and> k < n \<longrightarrow> f k"
        using True "1.prems"(5) by blast
      have "(\<forall>k<Search_loop f i ?h. \<not> f k) \<and> (\<forall>k. Search_loop f i ?h \<le> k \<and> k < n \<longrightarrow> f k)"
        using "1.IH"(2)[OF \<open>i < j\<close> refl _ h(1) _ "1.prems"(3) a "1.prems"(5)] True h "1.prems"(2)
        by simp
      moreover have "Search_loop f i j = Search_loop f i ?h"
        using True \<open>i < j\<close> by (subst Search_loop.simps) (simp add: Let_def)
      ultimately show ?thesis by simp
    next
      case False
      have a: "\<forall>k<?h + 1. \<not> f k"
      proof (intro allI impI)
        fix k assume "k < ?h + 1"
        then have "k \<le> ?h" by simp
        show "\<not> f k"
        proof
          assume "f k"
          with \<open>k \<le> ?h\<close> h "1.prems"(2,5) have "f ?h" by (meson le_less_trans less_le_trans)
          with False show False by simp
        qed
      qed
      have "(\<forall>k<Search_loop f (?h + 1) j. \<not> f k) \<and> (\<forall>k. Search_loop f (?h + 1) j \<le> k \<and> k < n \<longrightarrow> f k)"
        using "1.IH"(1)[OF \<open>i < j\<close> refl _ _ "1.prems"(2) a "1.prems"(4) "1.prems"(5)] False h
        by simp
      moreover have "Search_loop f i j = Search_loop f (?h + 1) j"
        using False \<open>i < j\<close> by (subst Search_loop.simps) (simp add: Let_def)
      ultimately show ?thesis by simp
    qed
  qed
qed

lemma sort_Search_le: "sort_Search n f \<le> n"
  using Search_loop_bounds[of 0 n f] by (simp add: sort_Search_def)

lemma sort_Search_least:
  assumes "\<forall>k l. k \<le> l \<and> l < n \<and> f k \<longrightarrow> f l"
  shows "(\<forall>k. k < sort_Search n f \<longrightarrow> \<not> f k) \<and> (\<forall>k. sort_Search n f \<le> k \<and> k < n \<longrightarrow> f k)"
  unfolding sort_Search_def
  by (rule Search_loop_least[where n = n]) (use assms in auto)

lemma sort_Search_unique:
  assumes mono: "\<forall>k l. k \<le> l \<and> l < n \<and> f k \<longrightarrow> f l"
    and "r < n" "f r" "\<forall>k<r. \<not> f k"
  shows "sort_Search n f = r"
proof -
  let ?s = "sort_Search n f"
  from sort_Search_least[OF mono]
  have a: "\<forall>k. k < ?s \<longrightarrow> \<not> f k" and b: "\<forall>k. ?s \<le> k \<and> k < n \<longrightarrow> f k" by blast+
  have "\<not> r < ?s" using a assms(3) by blast
  moreover have "\<not> ?s < r"
  proof
    assume "?s < r"
    with assms(2) b have "f ?s" by simp
    with assms(4) \<open>?s < r\<close> show False by blast
  qed
  ultimately show ?thesis by simp
qed

subsection \<open>Add and deleteByFile keep the URL order\<close>

lemma sorted_nth_url_le:
  assumes "sorted_by_URL xs" "k \<le> l" "l < length xs"
  shows "url_le (xs ! k) (xs ! l)"
proof (cases "k = l")
  case True
  then show ?thesis by (simp add: url_le_refl)
next
  case False
  with assms show ?thesis
    by (simp add: sorted_by_URL_def sorted_wrt_nth_less)
qed

lemma Cmp_ge0_mono:
  assumes "Cmp (URL x) u \<ge> 0" "url_le x y"
  shows "Cmp (URL y) u \<ge> 0"
  using assms by (auto simp: url_le_def Cmp_le0_iff Cmp_ge0_iff)

lemma Add_pred_mono:
  assumes "sorted_by_URL xs"
  shows "\<forall>k l. k \<le> l \<and> l < length xs \<and> Cmp (URL (xs ! k)) u \<ge> 0 \<longrightarrow> Cmp (URL (xs ! l)) u \<ge> 0"
  using assms by (blast intro: Cmp_ge0_mono sorted_nth_url_le)

lemma sorted_insert_at:
  assumes s: "sorted_by_URL xs"
    and lo: "\<forall>k<r. \<not> Cmp (URL (xs ! k)) (URL a) \<ge> 0"
    and hi: "\<forall>k. r \<le> k \<and> k < length xs \<longrightarrow> Cmp (URL (xs ! k)) (URL a) \<ge> 0"
    and r: "r \<le> length xs"
  shows "sorted_by_URL (take r xs @ a # drop r xs)"
proof -
  have t: "\<forall>x\<in>set (take r xs). url_le x a"
  proof
    fix x assume "x \<in> set (take r xs)"
    then obtain k where "k < r" "k < length xs" "x = xs ! k"
      by (auto simp: in_set_conv_nth)
    with lo show "url_le x a" by (auto intro: not_Cmp_ge0_url_le)
  qed
  have d: "\<forall>y\<in>set (drop r xs). url_le a y"
  proof
    fix y assume "y \<in> set (drop r xs)"
    then obtain k where "k < length xs - r" "y = xs ! (r + k)"
      by (auto simp: in_set_conv_nth)
    moreover from this have "r + k < length xs" by simp
    ultimately show "url_le a y" using hi by (auto intro: Cmp_ge0_url_le)
  qed
  have "sorted_wrt url_le (take r xs @ drop r xs)"
    using s by (simp add: sorted_by_URL_def)
  then have "sorted_wrt url_le (take r xs)" "sorted_wrt url_le (drop r xs)"
    "\<forall>x\<in>set (take r xs). \<forall>y\<in>set (drop r xs). url_le x y"
    unfolding sorted_wrt_append by blast+
  with t d show ?thesis
    by (auto simp: sorted_by_URL_def sorted_wrt_append)
qed

lemma Add_sorted:
  assumes "sorted_by_URL (all_accts ac)"
  shows "sorted_by_URL (all_accts (Add a f ac))"
proof -
  let ?f = "\<lambda>i. Cmp (URL (all_accts ac ! i)) (URL a) \<ge> 0"
  let ?r = "sort_Search (length (all_accts ac)) ?f"
  from sort_Search_least[OF Add_pred_mono[OF assms], of "URL a"]
  have "\<forall>k. k < ?r \<longrightarrow> \<not> ?f k" "\<forall>k. ?r \<le> k \<and> k < length (all_accts ac) \<longrightarrow> ?f k" by blast+
  then have "sorted_by_URL (take ?r (all_accts ac) @ a # drop ?r (all_accts ac))"
    by (intro sorted_insert_at[OF assms] sort_Search_le)
  with assms show ?thesis by (simp add: Add_def Let_def)
qed

lemma sorted_remove_at:
  assumes "sorted_by_URL xs"
  shows "sorted_by_URL (take i xs @ drop (i + 1) xs)"
proof -
  have "sorted_wrt url_le (take i xs @ drop i xs)"
    using assms by (simp add: sorted_by_URL_def)
  moreover have "set (drop (i + 1) xs) \<subseteq> set (drop i xs)"
    by (simp add: set_drop_subset_set_drop)
  moreover have "sorted_wrt url_le (drop (i + 1) xs)"
    using assms by (simp add: sorted_by_URL_def sorted_wrt_drop)
  ultimately show ?thesis
    unfolding sorted_by_URL_def sorted_wrt_append by blast
qed

lemma deleteByFile_sorted:
  assumes "sorted_by_URL (all_accts ac)"
  shows "sorted_by_URL (all_accts (deleteByFile p ac))"
  using assms sorted_remove_at[OF assms] by (simp add: deleteByFile_def Let_def)

subsection \<open>Add and deleteByFile keep byAddr in step with the list\<close>









subsection \<open>Invariants of every sequence of operations\<close>

lemma run_ops_snoc: "run_ops kd va (ops @ [x]) = apply_op (run_ops kd va ops) x"
  by (simp add: run_ops_def)

lemma run_ops_sorted: "sorted_by_URL (all_accts (run_ops kd va ops))"
proof (induction ops rule: rev_induct)
  case Nil
  show ?case by (simp add: run_ops_def NewAccountCache_def sorted_by_URL_def)
next
  case (snoc x ops)
  then show ?case
    by (cases x) (simp_all add: run_ops_snoc Add_sorted deleteByFile_sorted)
qed





lemma Cmp_self: "Cmp u u = 0"
  by (simp add: Cmp_def strings_Compare_def)


lemma Add_idem_sorted:
  assumes s: "sorted_by_URL (all_accts ac)"
  shows "Add a f (Add a f ac) = Add a f ac"
proof -
  let ?xs = "all_accts ac"
  define i where "i = sort_Search (length ?xs) (\<lambda>i. Cmp (URL (?xs ! i)) (URL a) \<ge> 0)"
  have eq: "Add a f ac = (if i < length ?xs \<and> ?xs ! i = a then ac else insert_at i a f ac)"
    unfolding Add_def insert_at_def Let_def i_def by (rule refl)
  show ?thesis
  proof (cases "i < length ?xs \<and> ?xs ! i = a")
    case True
    then have "Add a f ac = ac" unfolding eq by simp
    then show ?thesis by simp
  next
    case False
    then have ins: "Add a f ac = insert_at i a f ac" unfolding eq by auto
    let ?ys = "take i ?xs @ a # drop i ?xs"
    have ys: "all_accts (Add a f ac) = ?ys" by (simp add: ins insert_at_def)
    have le: "i \<le> length ?xs" by (simp add: i_def sort_Search_le)
    from sort_Search_least[OF Add_pred_mono[OF s], of "URL a"]
    have lo: "\<forall>k. k < i \<longrightarrow> \<not> Cmp (URL (?xs ! k)) (URL a) \<ge> 0"
      unfolding i_def by blast
    have sy: "sorted_by_URL ?ys" using Add_sorted[OF s, of a f] by (simp add: ys)
    have "sort_Search (length ?ys) (\<lambda>k. Cmp (URL (?ys ! k)) (URL a) \<ge> 0) = i"
    proof (rule sort_Search_unique[OF Add_pred_mono[OF sy]])
      show "i < length ?ys" using le by simp
      show "0 \<le> Cmp (URL (?ys ! i)) (URL a)"
        using le by (simp add: nth_append Cmp_self)
      show "\<forall>k<i. \<not> 0 \<le> Cmp (URL (?ys ! k)) (URL a)"
        using lo le by (simp add: nth_append)
    qed
    moreover have "?ys ! i = a" using le by (simp add: nth_append)
    moreover have "i < length ?ys" using le by simp
    ultimately have "Add a f (Add a f ac) = Add a f ac"
      unfolding Add_def[of a f "Add a f ac"] Let_def ys by simp
    then show ?thesis .
  qed
qed

lemmas example_defs =
  url_k1_def acct_1_def acct_2_def acct_no_URL_def zero_URL_def zero_Account_def

lemmas cache_defs =
  run_ops_def NewAccountCache_def newWatcher_def Add_def deleteByFile_def sort_Search_def
  Search_loop.simps Cmp_def strings_Compare_def byAddr_at_def Let_def

section \<open>The sorted list\<close>

text \<open>
  The list stays in URL order whatever is added and removed (\<open>run_ops_sorted\<close> above).
  It can hold an account twice.
\<close>

text \<open>
  C1. The claim: after every sequence of Add and deleteByFile from the empty cache the
  list \<^verbatim>\<open>all\<close> is in URL order and holds no (URL, Address) pair twice. \<^verbatim>\<open>Add\<close> looks
  for the new account at the search index only, which is the first account with that URL.
  Adding an account, then one with the same URL and another address, then the first one
  again leaves the first account in the list twice.
\<close>

theorem Add_same_URL_inserts_duplicate:
  "all_accts (run_ops ''keys'' ''vault''
      [OpAdd acct_1 ''f1'', OpAdd acct_2 ''f2'', OpAdd acct_1 ''f3'']) = [acct_1, acct_2, acct_1]
   \<and> \<not> distinct (all_accts (run_ops ''keys'' ''vault''
      [OpAdd acct_1 ''f1'', OpAdd acct_2 ''f2'', OpAdd acct_1 ''f3'']))"
  by (simp add: cache_defs example_defs)

section \<open>The derived maps\<close>

text \<open>
  What \<^verbatim>\<open>deleteByFile\<close> removes is the account at the search index, found by the path
  of the URL alone. With two accounts of one URL that is the other file's account, and
  the entry of the other file stays behind without its account.
\<close>

lemma deleteByFile_removes_other_account:
  "all_accts (run_ops ''keys'' ''vault''
      [OpAdd acct_1 ''f1'', OpAdd acct_2 ''f2'', OpDeleteByFile ''f1'']) = [acct_1]
   \<and> byFile (run_ops ''keys'' ''vault''
      [OpAdd acct_1 ''f1'', OpAdd acct_2 ''f2'', OpDeleteByFile ''f1'']) ''f2'' = Some acct_2"
  by (simp add: cache_defs example_defs)




section \<open>Adding twice\<close>

text \<open>
  C5. In every state the cache reaches from the empty cache by Add and deleteByFile, a
  second \<^verbatim>\<open>Add\<close> of the same account under the same path changes nothing: the whole
  state, with \<^verbatim>\<open>all\<close>, \<^verbatim>\<open>byAddr\<close> and \<^verbatim>\<open>byFile\<close>, is what the first call left.
\<close>

theorem Add_idempotent:
  "Add a f (Add a f (run_ops kd va ops)) = Add a f (run_ops kd va ops)"
  by (rule Add_idem_sorted) (rule run_ops_sorted)

theorem Add_idempotent_witness:
  "Add acct_1 ''f1'' (Add acct_1 ''f1'' (run_ops ''keys'' ''vault'' [OpAdd acct_2 ''f2'']))
     = Add acct_1 ''f1'' (run_ops ''keys'' ''vault'' [OpAdd acct_2 ''f2''])
   \<and> all_accts (Add acct_1 ''f1'' (run_ops ''keys'' ''vault'' [OpAdd acct_2 ''f2'']))
     = [acct_1, acct_2]"
proof -
  have "all_accts (Add acct_1 ''f1'' (run_ops ''keys'' ''vault'' [OpAdd acct_2 ''f2'']))
     = [acct_1, acct_2]"
    by (simp add: cache_defs example_defs)
  with Add_idempotent[of acct_1 "''f1''" "''keys''" "''vault''" "[OpAdd acct_2 ''f2'']"]
  show ?thesis by blast
qed

section \<open>Removing an unknown path\<close>

lemma Search_loop_always: "Search_loop (\<lambda>_. True) 0 n = 0"
proof (induction n rule: less_induct)
  case (less n)
  show ?case
  proof (cases "0 < n")
    case True
    then have "n div 2 < n" by simp
    with less True show ?thesis by (subst Search_loop.simps) simp
  next
    case False
    then show ?thesis by (subst Search_loop.simps) simp
  qed
qed

text \<open>
  A path without an entry leaves the cache as it is, unless the first account of the
  list has an empty URL path.
\<close>

lemma deleteByFile_unknown_path_unchanged:
  assumes "byFile ac p = None"
    and "all_accts ac = [] \<or> Path (URL (all_accts ac ! 0)) \<noteq> []"
  shows "deleteByFile p ac = ac"
  using assms
  by (auto simp: deleteByFile_def sort_Search_def Search_loop_always zero_Account_def
      zero_URL_def Let_def)

text \<open>
  C6. The claim: for a path with no entry in \<^verbatim>\<open>byFile\<close>, \<^verbatim>\<open>deleteByFile\<close> leaves
  \<^verbatim>\<open>all\<close>, \<^verbatim>\<open>byAddr\<close> and \<^verbatim>\<open>byFile\<close> unchanged. The source logs the unknown path and
  goes on with the zero account, whose URL path is empty. In a cache whose first account
  has an empty URL path, removing a path that was never added removes that account from
  \<^verbatim>\<open>all\<close> and from \<^verbatim>\<open>byAddr\<close>, and leaves its entry in \<^verbatim>\<open>byFile\<close> behind.
\<close>

theorem deleteByFile_unknown_path_removes_account:
  "byFile (run_ops ''keys'' ''vault'' [OpAdd acct_no_URL ''f1'']) ''f2'' = None
   \<and> all_accts (run_ops ''keys'' ''vault'' [OpAdd acct_no_URL ''f1'']) = [acct_no_URL]
   \<and> all_accts (deleteByFile ''f2'' (run_ops ''keys'' ''vault'' [OpAdd acct_no_URL ''f1''])) = []
   \<and> byAddr (deleteByFile ''f2'' (run_ops ''keys'' ''vault'' [OpAdd acct_no_URL ''f1''])) 1 = None
   \<and> byFile (deleteByFile ''f2'' (run_ops ''keys'' ''vault'' [OpAdd acct_no_URL ''f1''])) ''f1''
       = Some acct_no_URL"
  by (simp add: cache_defs example_defs)

section \<open>Find\<close>

lemma first_with_URL_find: "first_with_URL ms u = find (\<lambda>m. URL m = u) ms"
  by (induction ms) auto

lemma first_with_URL_mem: "first_with_URL ms u = Some m \<Longrightarrow> m \<in> set ms"
  by (induction ms) (auto split: if_splits)

lemma Find_switch_mem: "Find_switch srt a ms = Inr m \<Longrightarrow> m \<in> set ms"
  by (cases ms) (auto simp: Find_switch_def split: if_splits)

lemma Find_matches: "(if Address a \<noteq> 0 then byAddr_at ac (Address a) else all_accts ac)
    = candidates ac a"
  by (simp add: byAddr_at_def)

lemma Find_result_mem:
  assumes "Find join srt ac a = Inr m"
  shows "m \<in> set (candidates ac a)"
proof -
  let ?ms = "candidates ac a"
  show ?thesis
  proof (cases "Path (URL a) = []")
    case True
    with assms have "Find_switch srt a ?ms = Inr m"
      by (simp add: Find_def Let_def Find_matches)
    then show ?thesis by (rule Find_switch_mem)
  next
    case False
    define a' where "a' = (if \<not> strings_ContainsRune (Path (URL a)) Separator
                      then a\<lparr>URL := (URL a)\<lparr>Path := join (keydir ac) (Path (URL a))\<rparr>\<rparr>
                      else a)"
    from assms False have r: "(case first_with_URL ?ms (URL a') of
                 Some m \<Rightarrow> Inr m
               | None \<Rightarrow> if Address a' = 0 then Inl ErrNoMatch
                          else Find_switch srt a' ?ms) = Inr m"
      unfolding Find_def Let_def Find_matches a'_def by simp
    show ?thesis
    proof (cases "first_with_URL ?ms (URL a')")
      case None
      with r have "Find_switch srt a' ?ms = Inr m" by (simp split: if_splits)
      then show ?thesis by (rule Find_switch_mem)
    next
      case (Some m')
      with r have "m' = m" by simp
      with Some show ?thesis by (auto dest: first_with_URL_mem)
    qed
  qed
qed

lemma Find_with_path:
  assumes "Path (URL a) \<noteq> []"
  shows "Find join srt ac a =
     (case find (\<lambda>m. URL m = completed_URL join ac a) (candidates ac a) of
        Some m \<Rightarrow> Inr m
      | None \<Rightarrow> if Address a = 0 then Inl ErrNoMatch
                 else Find_switch srt a (candidates ac a))"
proof -
  have sw: "Find_switch srt (a\<lparr>URL := u\<rparr>) ms = Find_switch srt a ms" for u ms
    by (simp add: Find_switch_def)
  show ?thesis
    using assms unfolding Find_def Let_def Find_matches first_with_URL_find
    by (simp add: strings_ContainsRune_def Separator_def sw split: option.split)
qed

text \<open>
  C3. For every cache and query: an account \<^verbatim>\<open>Find\<close> returns is among the candidates,
  which are \<^verbatim>\<open>byAddr[Address]\<close> when the address of the query is not zero and the whole
  list otherwise. When the URL path of the query is not empty, a path without a separator
  is joined to the key directory first; the first candidate with exactly that URL is
  returned; and when there is none and the address is zero, \<^verbatim>\<open>Find\<close> fails with
  \<^verbatim>\<open>ErrNoMatch\<close>.
\<close>

theorem Find_candidates_and_URL_match:
  "(\<forall>m. Find join srt ac a = Inr m \<longrightarrow> m \<in> set (candidates ac a))
   \<and> (Path (URL a) \<noteq> [] \<longrightarrow>
        (case find (\<lambda>m. URL m = completed_URL join ac a) (candidates ac a) of
           Some m \<Rightarrow> Find join srt ac a = Inr m
         | None \<Rightarrow> Address a = 0 \<longrightarrow> Find join srt ac a = Inl ErrNoMatch))"
proof (intro conjI allI impI)
  fix m assume "Find join srt ac a = Inr m"
  then show "m \<in> set (candidates ac a)" by (rule Find_result_mem)
next
  assume "Path (URL a) \<noteq> []"
  then show "case find (\<lambda>m. URL m = completed_URL join ac a) (candidates ac a) of
           Some m \<Rightarrow> Find join srt ac a = Inr m
         | None \<Rightarrow> Address a = 0 \<longrightarrow> Find join srt ac a = Inl ErrNoMatch"
    by (simp add: Find_with_path split: option.split)
qed

lemmas find_example_defs =
  acct_3_def acct_4_def query_k4_def query_k5_def join_with_slash_def

theorem Find_candidates_and_URL_match_witness:
  "Path (URL query_k4) \<noteq> []
   \<and> Find join_with_slash insertion_sort
        (run_ops ''keys'' ''vault'' [OpAdd acct_4 ''f4'', OpAdd acct_1 ''f1'']) query_k4 = Inr acct_4
   \<and> acct_4 \<in> set (candidates (run_ops ''keys'' ''vault'' [OpAdd acct_4 ''f4'', OpAdd acct_1 ''f1''])
        query_k4)
   \<and> Path (URL query_k5) \<noteq> [] \<and> Address query_k5 = 0
   \<and> Find join_with_slash insertion_sort
        (run_ops ''keys'' ''vault'' [OpAdd acct_4 ''f4'', OpAdd acct_1 ''f1'']) query_k5
       = Inl ErrNoMatch"
proof -
  let ?ac = "run_ops ''keys'' ''vault'' [OpAdd acct_4 ''f4'', OpAdd acct_1 ''f1'']"
  have ac: "all_accts ?ac = [acct_1, acct_4]" "keydir ?ac = ''keys''"
    by (simp_all add: cache_defs example_defs find_example_defs)
  have p4: "Path (URL query_k4) \<noteq> []" and p5: "Path (URL query_k5) \<noteq> []"
    and z5: "Address query_k5 = 0"
    by (simp_all add: find_example_defs)
  have f4: "find (\<lambda>m. URL m = completed_URL join_with_slash ?ac query_k4)
              (candidates ?ac query_k4) = Some acct_4"
    by (simp add: ac) (simp add: example_defs find_example_defs)
  have f5: "find (\<lambda>m. URL m = completed_URL join_with_slash ?ac query_k5)
              (candidates ?ac query_k5) = None"
    by (simp add: ac) (simp add: example_defs find_example_defs)
  from Find_candidates_and_URL_match[of join_with_slash insertion_sort ?ac query_k4] p4
  have "case find (\<lambda>m. URL m = completed_URL join_with_slash ?ac query_k4)
              (candidates ?ac query_k4) of
          Some m \<Rightarrow> Find join_with_slash insertion_sort ?ac query_k4 = Inr m
        | None \<Rightarrow> Address query_k4 = 0 \<longrightarrow>
            Find join_with_slash insertion_sort ?ac query_k4 = Inl ErrNoMatch"
    by blast
  then have r4: "Find join_with_slash insertion_sort ?ac query_k4 = Inr acct_4"
    by (simp only: f4 option.case)
  from Find_candidates_and_URL_match[of join_with_slash insertion_sort ?ac query_k5] p5
  have "case find (\<lambda>m. URL m = completed_URL join_with_slash ?ac query_k5)
              (candidates ?ac query_k5) of
          Some m \<Rightarrow> Find join_with_slash insertion_sort ?ac query_k5 = Inr m
        | None \<Rightarrow> Address query_k5 = 0 \<longrightarrow>
            Find join_with_slash insertion_sort ?ac query_k5 = Inl ErrNoMatch"
    by blast
  then have "Address query_k5 = 0 \<longrightarrow>
            Find join_with_slash insertion_sort ?ac query_k5 = Inl ErrNoMatch"
    by (simp only: f5 option.case)
  with z5 have r5: "Find join_with_slash insertion_sort ?ac query_k5 = Inl ErrNoMatch"
    by blast
  have m4: "acct_4 \<in> set (candidates ?ac query_k4)"
    using Find_candidates_and_URL_match[of join_with_slash insertion_sort ?ac query_k4] r4
    by blast
  from p4 r4 m4 p5 z5 r5 show ?thesis by blast
qed

subsection \<open>The sort\<close>

lemma Less_url_le: "Less x y \<Longrightarrow> url_le x y"
  by (simp add: Less_def url_le_def)

lemma not_Less_url_le: "\<not> Less x y \<Longrightarrow> url_le y x"
  by (auto simp: Less_def url_le_def Cmp_le0_iff Cmp_def strings_Compare_def split: if_splits)

lemma mset_insert_by_URL: "mset (insert_by_URL a xs) = add_mset a (mset xs)"
  by (induction xs) auto

lemma set_insert_by_URL: "set (insert_by_URL a xs) = insert a (set xs)"
  by (induction xs) auto

lemma sorted_insert_by_URL:
  "sorted_wrt url_le xs \<Longrightarrow> sorted_wrt url_le (insert_by_URL a xs)"
proof (induction xs)
  case Nil
  show ?case by simp
next
  case (Cons x xs)
  show ?case
  proof (cases "Less x a")
    case True
    with Cons show ?thesis
      by (auto simp: set_insert_by_URL Less_url_le)
  next
    case False
    then have "url_le a x" by (rule not_Less_url_le)
    with Cons.prems False show ?thesis
      by (auto intro: url_le_trans)
  qed
qed

lemma insertion_sort_sorts: "sorts_by_URL insertion_sort"
proof -
  have "sorted_wrt url_le (insertion_sort xs)" for xs
    by (induction xs) (simp_all add: sorted_insert_by_URL)
  moreover have "mset (insertion_sort xs) = mset xs" for xs
    by (induction xs) (simp_all add: mset_insert_by_URL)
  ultimately show ?thesis by (simp add: sorts_by_URL_def sorted_by_URL_def)
qed

text \<open>
  C4. When \<^verbatim>\<open>Find\<close> gets as far as the number of candidates (the URL path of the query
  is empty, or the address is not zero and no candidate has the URL): no candidate gives
  \<^verbatim>\<open>ErrNoMatch\<close>, one candidate is the result, and more than one give an
  \<^verbatim>\<open>AmbiguousAddrError\<close> with the address of the query and as matches the sorted
  candidates: all of them, in URL order, a value that the cache and the query determine.
\<close>

theorem Find_by_cardinality:
  assumes "sorts_by_URL srt"
    and "Path (URL a) = [] \<or>
         (Address a \<noteq> 0 \<and>
          find (\<lambda>m. URL m = completed_URL join ac a) (candidates ac a) = None)"
  shows "(candidates ac a = [] \<longrightarrow> Find join srt ac a = Inl ErrNoMatch)
       \<and> (\<forall>m. candidates ac a = [m] \<longrightarrow> Find join srt ac a = Inr m)
       \<and> (1 < length (candidates ac a) \<longrightarrow>
            Find join srt ac a = Inl (AmbiguousAddrError (Address a) (srt (candidates ac a)))
            \<and> sorted_by_URL (srt (candidates ac a))
            \<and> mset (srt (candidates ac a)) = mset (candidates ac a))"
proof -
  have sw: "Find join srt ac a = Find_switch srt a (candidates ac a)"
  proof (cases "Path (URL a) = []")
    case True
    then show ?thesis by (simp add: Find_def Let_def Find_matches)
  next
    case False
    with assms(2) have n: "find (\<lambda>m. URL m = completed_URL join ac a) (candidates ac a) = None"
      and z: "Address a \<noteq> 0" by blast+
    have "Find join srt ac a =
        (if Address a = 0 then Inl ErrNoMatch else Find_switch srt a (candidates ac a))"
      by (simp only: Find_with_path[OF False] n option.case)
    also have "\<dots> = Find_switch srt a (candidates ac a)"
      using z by simp
    finally show ?thesis .
  qed
  from assms(1) have "sorted_by_URL (srt (candidates ac a))"
    "mset (srt (candidates ac a)) = mset (candidates ac a)"
    unfolding sorts_by_URL_def by blast+
  then show ?thesis
    unfolding sw by (auto simp: Find_switch_def)
qed

theorem Find_by_cardinality_witness:
  "sorts_by_URL insertion_sort
   \<and> Path (URL acct_no_URL) = []
   \<and> candidates (run_ops ''keys'' ''vault'' [OpAdd acct_3 ''f3'', OpAdd acct_1 ''f1'']) acct_no_URL
       = [acct_3, acct_1]
   \<and> Find join_with_slash insertion_sort
        (run_ops ''keys'' ''vault'' [OpAdd acct_3 ''f3'', OpAdd acct_1 ''f1'']) acct_no_URL
       = Inl (AmbiguousAddrError 1 [acct_1, acct_3])"
proof -
  let ?ac = "run_ops ''keys'' ''vault'' [OpAdd acct_3 ''f3'', OpAdd acct_1 ''f1'']"
  have p: "Path (URL acct_no_URL) = []" and ad: "Address acct_no_URL = 1"
    by (simp_all add: example_defs)
  have c: "candidates ?ac acct_no_URL = [acct_3, acct_1]"
    by (simp add: cache_defs example_defs find_example_defs)
  have s: "insertion_sort [acct_3, acct_1] = [acct_1, acct_3]"
    by (simp add: Less_def Cmp_def strings_Compare_def example_defs find_example_defs)
  have "1 < length (candidates ?ac acct_no_URL)" by (simp only: c) simp
  with Find_by_cardinality[OF insertion_sort_sorts, of acct_no_URL join_with_slash ?ac] p
  have "Find join_with_slash insertion_sort ?ac acct_no_URL
      = Inl (AmbiguousAddrError (Address acct_no_URL) (insertion_sort (candidates ?ac acct_no_URL)))"
    by blast
  then have "Find join_with_slash insertion_sort ?ac acct_no_URL
      = Inl (AmbiguousAddrError (Address acct_no_URL) [acct_1, acct_3])"
    by (simp only: c s)
  then have "Find join_with_slash insertion_sort ?ac acct_no_URL
      = Inl (AmbiguousAddrError 1 [acct_1, acct_3])"
    by (simp only: ad)
  with insertion_sort_sorts p c show ?thesis by blast
qed

subsection \<open>The matches do not depend on the order of the candidates\<close>

lemma url_le_antisym:
  assumes "url_le x y" "url_le y x" "Address x = Address y"
  shows "x = y"
proof -
  from assms(1,2) have "Scheme (URL x) = Scheme (URL y)" "Path (URL x) = Path (URL y)"
    by (auto simp: url_le_def Cmp_le0_iff)
  then have "URL x = URL y" by simp
  with assms(3) show ?thesis by simp
qed

lemma sorted_by_URL_unique:
  assumes "sorted_by_URL xs" "sorted_by_URL ys" "mset xs = mset ys"
    and "\<forall>x \<in> set xs. Address x = addr"
  shows "xs = ys"
  using assms
proof (induction xs arbitrary: ys)
  case Nil
  then show ?case by simp
next
  case (Cons x xs)
  from Cons.prems(3) obtain y ys' where ys: "ys = y # ys'"
    by (cases ys) auto
  have sx: "set (x # xs) = set ys" using Cons.prems(3) by (metis set_mset_mset)
  have "y = x \<or> y \<in> set xs" "x = y \<or> x \<in> set ys'"
    using sx ys by auto
  then have "url_le x y" "url_le y x"
    using Cons.prems(1,2) ys by (auto simp: sorted_by_URL_def url_le_refl)
  moreover have "Address x = Address y"
    using Cons.prems(4) sx ys by (metis list.set_intros(1))
  ultimately have xy: "x = y" by (rule url_le_antisym)
  have "xs = ys'"
  proof (rule Cons.IH)
    show "sorted_by_URL xs" using Cons.prems(1) by (simp add: sorted_by_URL_def)
    show "sorted_by_URL ys'" using Cons.prems(2) ys by (simp add: sorted_by_URL_def)
    show "mset xs = mset ys'" using Cons.prems(3) ys xy by simp
    show "\<forall>x \<in> set xs. Address x = addr" using Cons.prems(4) by simp
  qed
  with xy ys show ?case by simp
qed

text \<open>
  For a query with an address, the matches of the \<^verbatim>\<open>AmbiguousAddrError\<close> are the same
  for every sort that keeps the promise of \<^verbatim>\<open>sort.Sort\<close> and for every order in which
  the accounts came into \<^verbatim>\<open>byAddr\<close>: two caches with the same accounts in \<^verbatim>\<open>all\<close>
  give the same list.
\<close>

lemma ambiguous_matches_unique:
  assumes "sorts_by_URL srt" "sorts_by_URL srt'"
    and "byAddr_consistent ac" "byAddr_consistent ac'"
    and "mset (all_accts ac) = mset (all_accts ac')"
  shows "srt (byAddr_at ac addr) = srt' (byAddr_at ac' addr)"
proof (rule sorted_by_URL_unique)
  show "sorted_by_URL (srt (byAddr_at ac addr))" "sorted_by_URL (srt' (byAddr_at ac' addr))"
    using assms(1,2) by (simp_all add: sorts_by_URL_def)
  have "mset (byAddr_at ac addr) = mset (byAddr_at ac' addr)"
    using assms(3,4,5) by (simp add: byAddr_consistent_def)
  then show "mset (srt (byAddr_at ac addr)) = mset (srt' (byAddr_at ac' addr))"
    using assms(1,2) by (simp add: sorts_by_URL_def)
  have "set (srt (byAddr_at ac addr)) = set (byAddr_at ac addr)"
    using assms(1) by (metis sorts_by_URL_def set_mset_mset)
  also have "\<dots> = set (filter (\<lambda>a. Address a = addr) (all_accts ac))"
    using assms(3) by (metis byAddr_consistent_def set_mset_mset)
  finally show "\<forall>x \<in> set (srt (byAddr_at ac addr)). Address x = addr" by simp
qed

section \<open>Close\<close>

lemma Close_open:
  assumes "notify ac = None \<or> notify ac = Some (Chan False)"
  shows "Close ac = Inr (ac\<lparr>watcher := watcher_close (watcher ac),
                           throttle := map_option Timer_Stop (throttle ac),
                           notify := None\<rparr>)"
  using assms
  by (cases "throttle ac"; cases "notify ac")
    (auto simp: Close_def Let_def close_chan_def)

lemma Close_result:
  assumes "Close ac = Inr ac'"
  shows "notify ac' = None \<and> (throttle ac' = None \<or> throttle ac' = Some (Timer False))
         \<and> running (watcher ac') = False"
  using assms
  by (cases "throttle ac"; cases "notify ac")
    (auto simp: Close_def Let_def close_chan_def Timer_Stop_def watcher_close_def
      split: if_splits)

lemma Close_closed:
  assumes "notify ac = None" "running (watcher ac) = False"
    "throttle ac = None \<or> throttle ac = Some (Timer False)"
  shows "Close ac = Inr ac"
  using assms
  by (auto simp: Close_def Let_def Timer_Stop_def watcher_close_def)

text \<open>
  C8. For every cache: when a call of \<^verbatim>\<open>Close\<close> has returned, \<^verbatim>\<open>notify\<close> is nil and
  a second call returns without a panic and changes nothing, so the channel is closed
  once, by the first call. The first call does return for every cache whose channel is
  nil or still open, which is every cache that nobody but \<^verbatim>\<open>Close\<close> has closed the
  channel of. The watcher's own \<^verbatim>\<open>close\<close> is the one modelled from the spec above.
\<close>

theorem Close_twice:
  "(\<forall>ac'. Close ac = Inr ac' \<longrightarrow> notify ac' = None \<and> Close ac' = Inr ac')
   \<and> (notify ac = None \<or> notify ac = Some (Chan False) \<longrightarrow> (\<exists>ac'. Close ac = Inr ac'))"
proof (intro conjI allI impI)
  fix ac' assume c: "Close ac = Inr ac'"
  from Close_result[OF c] have "notify ac' = None"
    "throttle ac' = None \<or> throttle ac' = Some (Timer False)" "running (watcher ac') = False"
    by blast+
  then show "notify ac' = None" "Close ac' = Inr ac'"
    by (simp_all add: Close_closed)
next
  assume "notify ac = None \<or> notify ac = Some (Chan False)"
  from Close_open[OF this] show "\<exists>ac'. Close ac = Inr ac'" by blast
qed

theorem Close_twice_witness:
  "notify (NewAccountCache ''keys'' ''vault'') = Some (Chan False)
   \<and> (\<exists>ac'. Close (NewAccountCache ''keys'' ''vault'') = Inr ac' \<and> notify ac' = None
          \<and> Close ac' = Inr ac')"
proof -
  have h: "notify (NewAccountCache ''keys'' ''vault'') = Some (Chan False)"
    by (simp add: NewAccountCache_def)
  note t = Close_twice[of "NewAccountCache ''keys'' ''vault''"]
  from t h obtain ac' where "Close (NewAccountCache ''keys'' ''vault'') = Inr ac'" by blast
  with t h show ?thesis by blast
qed

text \<open>A channel that somebody else has closed makes the first \<^verbatim>\<open>Close\<close> panic.\<close>

lemma Close_of_closed_channel:
  "Close ((NewAccountCache ''keys'' ''vault'')\<lparr>notify := Some (Chan True)\<rparr>)
     = Inl close_of_closed_channel"
  by (simp add: Close_def NewAccountCache_def close_chan_def Let_def)

section \<open>The copy that Accounts returns\<close>

lemma elems_whole:
  assumes "arr s = k" "off s = 0" "len s = length xs"
  shows "elems (h\<lparr>arrays := (arrays h)(k := xs), next_free := q\<rparr>) s = xs"
  using assms by (simp add: elems_def)

lemma elems_array:
  assumes "off s = 0" "len s = length (arrays h (arr s))"
  shows "elems h s = arrays h (arr s)"
  using assms by (simp add: elems_def)

lemma length_elems: "slice_ok h s \<Longrightarrow> length (elems h s) = len s"
  by (auto simp: slice_ok_def elems_def)

text \<open>
  C9. Let \<^verbatim>\<open>Accounts\<close> run in a memory where, after the reload, the slice \<^verbatim>\<open>all\<close> lies
  in an allocated array. The slice it returns has the elements of \<^verbatim>\<open>all\<close> at that
  moment, in a new array; the call changes no array that existed before and not the
  field \<^verbatim>\<open>all\<close>; and a later write to any index of the returned slice succeeds, changes
  that element of the returned slice, and changes neither an array that existed before
  nor the elements of \<^verbatim>\<open>all\<close>.
\<close>

theorem Accounts_defensive_copy:
  assumes "slice_ok (mem (reload cm)) (all_slice (reload cm))"
    and "Accounts reload cm = (cpy, cm')"
  shows "elems (mem cm') cpy = elems (mem (reload cm)) (all_slice (reload cm))
       \<and> all_slice cm' = all_slice (reload cm)
       \<and> elems (mem cm') (all_slice cm') = elems (mem (reload cm)) (all_slice (reload cm))
       \<and> (\<forall>k. k < next_free (mem (reload cm)) \<longrightarrow>
             arrays (mem cm') k = arrays (mem (reload cm)) k)
       \<and> (\<forall>i v. i < len cpy \<longrightarrow>
             (\<exists>h. store_at cpy i v (mem cm') = Inr h
                \<and> elems h cpy = (elems (mem cm') cpy)[i := v]
                \<and> elems h (all_slice cm') = elems (mem cm') (all_slice cm')
                \<and> (\<forall>k. k < next_free (mem (reload cm)) \<longrightarrow>
                      arrays h k = arrays (mem (reload cm)) k)))"
proof -
  define h0 where "h0 = mem (reload cm)"
  define al where "al = all_slice (reload cm)"
  define n where "n = len al"
  define f where "f = next_free h0"
  have ok: "slice_ok h0 al" using assms(1) by (simp add: h0_def al_def)
  have le: "length (elems h0 al) = n" using ok by (simp add: length_elems n_def)
  have cpy: "cpy = \<lparr>arr = f, off = 0, len = n, cap = n\<rparr>"
    and cm': "cm' = (reload cm)\<lparr>mem := h0\<lparr>arrays := (arrays h0)(f := elems h0 al),
                                          next_free := f + 1\<rparr>\<rparr>"
    using assms(2) ok le
    by (auto simp: Accounts_def make_slice_def copy_slice_def Let_def elems_def slice_ok_def
        h0_def[symmetric] al_def[symmetric] n_def[symmetric] f_def[symmetric])
  have m: "mem cm' = h0\<lparr>arrays := (arrays h0)(f := elems h0 al), next_free := f + 1\<rparr>"
    and a: "all_slice cm' = al"
    by (simp_all add: cm' al_def)
  have e1: "elems (mem cm') cpy = elems h0 al"
    unfolding m by (rule elems_whole) (simp_all add: cpy le)
  have e2: "elems (mem cm') al = elems h0 al"
    using ok by (auto simp: m elems_def slice_ok_def f_def)
  have fr: "\<forall>k. k < f \<longrightarrow> arrays (mem cm') k = arrays h0 k"
    by (simp add: m)
  have st: "\<exists>h. store_at cpy i v (mem cm') = Inr h
                \<and> elems h cpy = (elems (mem cm') cpy)[i := v]
                \<and> elems h al = elems (mem cm') al
                \<and> (\<forall>k. k < f \<longrightarrow> arrays h k = arrays h0 k)" if "i < len cpy" for i v
  proof -
    let ?h = "(mem cm')\<lparr>arrays := (arrays (mem cm'))(f := (elems h0 al)[i := v])\<rparr>"
    have "store_at cpy i v (mem cm') = Inr ?h"
      using that by (simp add: store_at_def cpy m)
    moreover have "elems ?h cpy = (elems h0 al)[i := v]"
      unfolding m by (subst elems_array) (simp_all add: cpy le)
    then have "elems ?h cpy = (elems (mem cm') cpy)[i := v]"
      by (simp only: e1)
    moreover have "elems ?h al = elems (mem cm') al"
      using ok by (auto simp: m elems_def slice_ok_def f_def)
    moreover have "\<forall>k. k < f \<longrightarrow> arrays ?h k = arrays h0 k"
      by (simp add: m)
    ultimately show ?thesis by blast
  qed
  show ?thesis
    using e1 e2 fr st unfolding a h0_def[symmetric] al_def[symmetric] f_def[symmetric]
    by blast
qed

theorem Accounts_defensive_copy_witness:
  "slice_ok (mem (no_reload cm_ex)) (all_slice (no_reload cm_ex))
   \<and> (\<exists>cpy cm'. Accounts no_reload cm_ex = (cpy, cm')
         \<and> elems (mem cm') cpy = [acct_1, acct_4]
         \<and> 1 < len cpy
         \<and> (\<exists>h. store_at cpy 1 acct_2 (mem cm') = Inr h
               \<and> elems h cpy = [acct_1, acct_2]
               \<and> elems h (all_slice cm') = [acct_1, acct_4]))"
proof -
  obtain cpy cm' where a: "Accounts no_reload cm_ex = (cpy, cm')"
    by (cases "Accounts no_reload cm_ex") blast
  have ok: "slice_ok (mem (no_reload cm_ex)) (all_slice (no_reload cm_ex))"
    by (simp add: slice_ok_def no_reload_def cm_ex_def)
  have e0: "elems (mem (no_reload cm_ex)) (all_slice (no_reload cm_ex)) = [acct_1, acct_4]"
    by (simp add: elems_def no_reload_def cm_ex_def)
  have l: "1 < len cpy"
    using a by (auto simp: Accounts_def make_slice_def Let_def no_reload_def cm_ex_def)
  note t = Accounts_defensive_copy[OF ok a]
  from t have c1: "elems (mem cm') cpy
      = elems (mem (no_reload cm_ex)) (all_slice (no_reload cm_ex))"
    and c2: "elems (mem cm') (all_slice cm')
      = elems (mem (no_reload cm_ex)) (all_slice (no_reload cm_ex))" by blast+
  have e1: "elems (mem cm') cpy = [acct_1, acct_4]" by (rule trans[OF c1 e0])
  have e2: "elems (mem cm') (all_slice cm') = [acct_1, acct_4]" by (rule trans[OF c2 e0])
  from t l obtain h where "store_at cpy 1 acct_2 (mem cm') = Inr h"
    "elems h cpy = (elems (mem cm') cpy)[1 := acct_2]"
    "elems h (all_slice cm') = elems (mem cm') (all_slice cm')" by blast
  with e1 e2 have "store_at cpy 1 acct_2 (mem cm') = Inr h \<and> elems h cpy = [acct_1, acct_2]
      \<and> elems h (all_slice cm') = [acct_1, acct_4]" by simp
  with ok a e1 l show ?thesis by blast
qed

section \<open>Reading the client configuration\<close>

lemma vaultClientAuthentication_Inr:
  "vaultClientAuthentication parse c = Inr r \<longleftrightarrow>
     (\<exists>t ro s. parse (j_Token c) = Inr t \<and> parse (j_RoleId c) = Inr ro
        \<and> parse (j_SecretId c) = Inr s
        \<and> r = \<lparr>Token = Some t, RoleId = Some ro, SecretId = Some s,
               ApprolePath = j_ApprolePath c\<rparr>)"
  by (auto simp: vaultClientAuthentication_def split: sum.splits)

lemma vaultClientTls_Inr:
  "vaultClientTls parse c = Inr r \<longleftrightarrow>
     (\<exists>ca ce k. parse (j_CaCert c) = Inr ca \<and> parse (j_ClientCert c) = Inr ce
        \<and> parse (j_ClientKey c) = Inr k
        \<and> r = \<lparr>CaCert = Some ca, ClientCert = Some ce, ClientKey = Some k\<rparr>)"
  by (auto simp: vaultClientTls_def split: sum.splits)

lemma vaultClient_Inr:
  "vaultClient parse c = Inr r \<longleftrightarrow>
     (\<exists>v d au tl. parse (j_Vault c) = Inr v \<and> parse (j_AccountDirectory c) = Inr d
        \<and> vaultClientAuthentication parse (j_Authentication c) = Inr au
        \<and> vaultClientTls parse (j_Tls c) = Inr tl
        \<and> r = \<lparr>Vault = Some v, AccountDirectory = Some d, Unlock = j_Unlock c,
               Authentication = au, TLS = tl\<rparr>)"
  by (auto simp: vaultClient_def split: sum.splits)

lemma not_Inr_iff: "(\<nexists>r. x = Inr r) \<longleftrightarrow> (\<exists>e. x = Inl e)"
  by (cases x) auto

lemma vaultClient_fails_iff:
  "(\<exists>e. vaultClient parse c = Inl e) \<longleftrightarrow> (\<exists>s \<in> set (parsed_strings c). \<exists>e. parse s = Inl e)"
proof -
  have "(\<exists>r. vaultClient parse c = Inr r) \<longleftrightarrow> (\<forall>s \<in> set (parsed_strings c). \<exists>u. parse s = Inr u)"
    by (auto simp add: vaultClient_Inr vaultClientAuthentication_Inr vaultClientTls_Inr
        parsed_strings_def)
  then have "(\<nexists>r. vaultClient parse c = Inr r) \<longleftrightarrow>
      (\<exists>s \<in> set (parsed_strings c). \<nexists>u. parse s = Inr u)" by blast
  then show ?thesis by (simp only: not_Inr_iff)
qed

lemma UnmarshalJSON_cases:
  "UnmarshalJSON unmarshal parse c b =
     (case fst (unmarshal b new_vaultClientJSON) of
        Some e \<Rightarrow> (Some e, c)
      | None \<Rightarrow> (case vaultClient parse (snd (unmarshal b new_vaultClientJSON)) of
                   Inl e \<Rightarrow> (Some e, c)
                 | Inr vc \<Rightarrow> (None, vc)))"
  by (cases "unmarshal b new_vaultClientJSON") (simp add: UnmarshalJSON_def split: option.split)

text \<open>
  C10. For every receiver and every input: if \<^verbatim>\<open>UnmarshalJSON\<close> returns an error, the
  receiver is what it was; if it returns \<^verbatim>\<open>nil\<close>, the receiver is the value
  \<^verbatim>\<open>vaultClient\<close> makes of the decoded struct, with every URL parsed; and it returns an
  error exactly when decoding fails or one of the eight URL strings (Vault,
  AccountDirectory, the three of the authentication, the three of TLS) does not parse.
\<close>

theorem UnmarshalJSON_atomic:
  "(fst (UnmarshalJSON unmarshal parse c b) \<noteq> None \<longrightarrow>
      snd (UnmarshalJSON unmarshal parse c b) = c)
   \<and> (fst (UnmarshalJSON unmarshal parse c b) = None \<longrightarrow>
        fst (unmarshal b new_vaultClientJSON) = None
        \<and> vaultClient parse (snd (unmarshal b new_vaultClientJSON))
            = Inr (snd (UnmarshalJSON unmarshal parse c b))
        \<and> (\<forall>s \<in> set (parsed_strings (snd (unmarshal b new_vaultClientJSON))).
              \<exists>u. parse s = Inr u))
   \<and> (fst (UnmarshalJSON unmarshal parse c b) \<noteq> None \<longleftrightarrow>
        fst (unmarshal b new_vaultClientJSON) \<noteq> None
        \<or> (\<exists>s \<in> set (parsed_strings (snd (unmarshal b new_vaultClientJSON))).
              \<exists>e. parse s = Inl e))"
proof -
  let ?j = "snd (unmarshal b new_vaultClientJSON)"
  let ?r = "UnmarshalJSON unmarshal parse c b"
  have 1: "fst ?r \<noteq> None \<longrightarrow> snd ?r = c"
    by (simp add: UnmarshalJSON_cases split: option.split sum.split)
  have 3: "fst ?r \<noteq> None \<longleftrightarrow> fst (unmarshal b new_vaultClientJSON) \<noteq> None
        \<or> (\<exists>e. vaultClient parse ?j = Inl e)"
    by (auto simp: UnmarshalJSON_cases split: option.split sum.split)
  have 2: "fst ?r = None \<longrightarrow> fst (unmarshal b new_vaultClientJSON) = None
        \<and> vaultClient parse ?j = Inr (snd ?r)"
    by (auto simp: UnmarshalJSON_cases split: option.split sum.split)
  have 4: "fst ?r = None \<longrightarrow> (\<forall>s \<in> set (parsed_strings ?j). \<exists>u. parse s = Inr u)"
  proof
    assume "fst ?r = None"
    with 3 have "\<nexists>e. vaultClient parse ?j = Inl e" by simp
    then have "\<forall>s \<in> set (parsed_strings ?j). \<nexists>e. parse s = Inl e"
      unfolding vaultClient_fails_iff by blast
    then show "\<forall>s \<in> set (parsed_strings ?j). \<exists>u. parse s = Inr u"
      by (metis sum.exhaust)
  qed
  from 1 2 3 4 show ?thesis unfolding vaultClient_fails_iff by blast
qed

theorem UnmarshalJSON_atomic_witness:
  "fst (UnmarshalJSON unmarshal_ex parse_ex client_ex [0x7B]) \<noteq> None
   \<and> snd (UnmarshalJSON unmarshal_ex parse_ex client_ex [0x7B]) = client_ex
   \<and> fst (unmarshal_ex [0x7B] new_vaultClientJSON) = None
   \<and> ''file:///bad key.pem'' \<in> set (parsed_strings (snd (unmarshal_ex [0x7B] new_vaultClientJSON)))
   \<and> parse_ex ''file:///bad key.pem'' = Inl ''invalid character in URL''"
proof -
  have u: "unmarshal_ex [0x7B] new_vaultClientJSON = (None, json_ex)"
    by (simp add: unmarshal_ex_def)
  have m: "''file:///bad key.pem'' \<in> set (parsed_strings (snd (unmarshal_ex [0x7B] new_vaultClientJSON)))"
    by (simp add: u parsed_strings_def json_ex_def)
  have p: "parse_ex ''file:///bad key.pem'' = Inl ''invalid character in URL''"
    by (simp add: parse_ex_def)
  note t = UnmarshalJSON_atomic[of unmarshal_ex parse_ex client_ex "[0x7B]"]
  from t m p have e: "fst (UnmarshalJSON unmarshal_ex parse_ex client_ex [0x7B]) \<noteq> None"
    by blast
  with t have "snd (UnmarshalJSON unmarshal_ex parse_ex client_ex [0x7B]) = client_ex"
    by blast
  with e u m p show ?thesis by simp
qed

end
